theory Spec2Isabelle
  imports Main "HOL-Library.Signed_Division" "HOL-Library.Multiset"
begin

section \<open>Configuration constants of fetchData.go\<close>

definition batchSize :: nat where
  "batchSize = 1000"

definition outputDir :: string where
  "outputDir = ''data''"

definition outputFile :: string where
  "outputFile = ''Louisville_Metro_KY_-_Property_Foreclosures.csv''"

definition workers :: nat where
  "workers = 5"

definition maxBatches :: nat where
  "maxBatches = 300"

definition csvHeaders :: "string list" where
  "csvHeaders =
    [''House_Nr'', ''Dir'', ''Street_Name'', ''St_Type'', ''Post_Dir'', ''Zip'', ''L_S'', ''CD'',
     ''Neighborhood'', ''Full_Parcel_ID'', ''Census_Tract'', ''Action_Filed'', ''Case_'',
     ''Case_Style'', ''Sale_Date'', ''Sale_Price'', ''Purchaser'', ''ObjectId'']"

section \<open>Attribute values\<close>

text \<open>
  An attribute value is what \<^verbatim>\<open>encoding/json\<close> stores in an \<^verbatim>\<open>interface{}\<close>:
  nil, a bool, a float64, a string, a slice or a map.  The remote service sends its
  numbers (epoch milliseconds, prices, identifiers) as JSON integers; \<open>JNumber n\<close> is
  the float64 whose value is the integer \<open>n\<close>, which is exact for \<open>\<bar>n\<bar> \<le> 2 ^ 53\<close>.
  Fractional numbers, negative zero and magnitudes beyond that bound are outside the model.
  A map is kept as its entries in ascending key order, the order in which \<^verbatim>\<open>fmt\<close>
  prints them.
\<close>

datatype jvalue =
    JNil
  | JBool bool
  | JNumber int
  | JString string
  | JArray "jvalue list"
  | JObject "(string \<times> jvalue) list"

text \<open>The range in which \<open>JNumber n\<close> stands for an exactly represented float64.\<close>

definition float64_exact :: "int \<Rightarrow> bool" where
  "float64_exact n \<longleftrightarrow> \<bar>n\<bar> \<le> 2 ^ 53"

text \<open>An attribute record, \<^verbatim>\<open>map[string]interface{}\<close>.\<close>

type_synonym record_map = "string \<rightharpoonup> jvalue"

text \<open>\<^verbatim>\<open>record[key]\<close>: indexing a Go map with a missing key yields the nil interface.\<close>

definition index_map :: "record_map \<Rightarrow> string \<Rightarrow> jvalue" where
  "index_map r key = (case r key of None \<Rightarrow> JNil | Some v \<Rightarrow> v)"

section \<open>Decimal digits\<close>

definition digit_char :: "nat \<Rightarrow> char" where
  "digit_char d = ''0123456789'' ! (d mod 10)"

fun digits :: "nat \<Rightarrow> string" where
  "digits n = (if n < 10 then [digit_char n] else digits (n div 10) @ [digit_char (n mod 10)])"

declare digits.simps [simp del]

text \<open>
  \<^verbatim>\<open>appendInt\<close> of package \<^verbatim>\<open>time\<close>: a minus sign for a negative number, then the
  decimal digits padded with zeros on the left to at least \<open>width\<close> characters.
\<close>

definition appendInt :: "int \<Rightarrow> nat \<Rightarrow> string" where
  "appendInt x width =
    (let ds = digits (nat \<bar>x\<bar>)
     in (if x < 0 then ''-'' else '''') @ replicate (width - length ds) (CHR ''0'') @ ds)"

section \<open>Package time: \<^verbatim>\<open>time.Unix(sec, 0).UTC().Format(layout)\<close>\<close>

text \<open>
  The standard library is not part of the repository; the definitions below follow
  package \<^verbatim>\<open>time\<close> (Go 1.18 to 1.22).  A \<^verbatim>\<open>Time\<close> in UTC is read through its
  absolute seconds, an unsigned 64-bit count from the year \<open>-292277022399\<close>.
\<close>

definition secondsPerDay :: int where
  "secondsPerDay = 86400"

definition unixToAbsolute :: int where
  "unixToAbsolute = 9223372028715321600"

definition absoluteZeroYear :: int where
  "absoluteZeroYear = - 292277022399"

text \<open>\<^verbatim>\<open>uint64(sec + (unixToInternal + internalToAbsolute))\<close>, with the wrap-around.\<close>

definition abs_seconds :: "int \<Rightarrow> int" where
  "abs_seconds sec = (sec + unixToAbsolute) mod 2 ^ 64"

definition isLeap :: "int \<Rightarrow> bool" where
  "isLeap year \<longleftrightarrow> year mod 4 = 0 \<and> (year mod 100 \<noteq> 0 \<or> year mod 400 = 0)"

definition daysBefore :: "int list" where
  "daysBefore = [0, 31, 59, 90, 120, 151, 181, 212, 243, 273, 304, 334, 365]"

text \<open>The first half of \<^verbatim>\<open>absDate\<close>: the year and the zero-based day of the year.\<close>

definition absYearDay :: "int \<Rightarrow> int \<times> int" where
  "absYearDay asec =
    (let d0 = asec div secondsPerDay;
         n400 = d0 div 146097;
         y400 = 400 * n400;
         d1 = d0 - 146097 * n400;
         q100 = d1 div 36524;
         n100 = q100 - q100 div 4;
         y100 = y400 + 100 * n100;
         d2 = d1 - 36524 * n100;
         n4 = d2 div 1461;
         y4 = y100 + 4 * n4;
         d3 = d2 - 1461 * n4;
         q1 = d3 div 365;
         n1 = q1 - q1 div 4;
         y = y4 + n1;
         d4 = d3 - 365 * n1
     in (y + absoluteZeroYear, d4))"

text \<open>
  The second half of \<^verbatim>\<open>absDate\<close>: month (January is 1) and day of the month from
  the day of the year.
\<close>

definition monthDay :: "bool \<Rightarrow> int \<Rightarrow> int \<times> int" where
  "monthDay leap yday =
    (if leap \<and> yday = 31 + 29 - 1 then (2, 29)
     else
       (let day = (if leap \<and> yday > 31 + 29 - 1 then yday - 1 else yday);
            month = day div 31;
            end' = daysBefore ! nat (month + 1)
        in if day \<ge> end' then (month + 2, day - end' + 1)
           else (month + 1, day - daysBefore ! nat month + 1)))"

definition absDate :: "int \<Rightarrow> int \<times> int \<times> int" where
  "absDate asec =
    (let (year, yday) = absYearDay asec;
         (month, day) = monthDay (isLeap year) yday
     in (year, month, day))"

text \<open>\<^verbatim>\<open>absClock\<close>: hour, minute and second within the day.\<close>

definition absClock :: "int \<Rightarrow> int \<times> int \<times> int" where
  "absClock asec =
    (let sec = asec mod secondsPerDay;
         hour = sec div 3600;
         sec1 = sec - hour * 3600;
         min = sec1 div 60;
         sec2 = sec1 - min * 60
     in (hour, min, sec2))"

text \<open>
  \<^verbatim>\<open>Format\<close> with the layout \<^verbatim>\<open>2006/01/02 15:04:05+00\<close>: the layout holds the
  fields long year, zero-padded month, day, hour, minute and second; the separators and
  the trailing \<^verbatim>\<open>+00\<close> are no layout fields and are copied as they are.
\<close>

definition formatUnixUTC :: "int \<Rightarrow> string" where
  "formatUnixUTC sec =
    (let asec = abs_seconds sec;
         (year, month, day) = absDate asec;
         (hour, min, s) = absClock asec
     in appendInt year 4 @ ''/'' @ appendInt month 2 @ ''/'' @ appendInt day 2 @ '' '' @
        appendInt hour 2 @ '':'' @ appendInt min 2 @ '':'' @ appendInt s 2 @ ''+00'')"

section \<open>Package fmt: the verb \<^verbatim>\<open>%v\<close>\<close>

text \<open>
  A float64 under \<^verbatim>\<open>%v\<close> is printed as \<^verbatim>\<open>%g\<close> with the shortest digits that
  identify it.  For an integer value these are its decimal digits without the trailing
  zeros, the decimal point standing after \<open>dp\<close> digits.  With the shortest precision
  the exponent form is chosen when \<open>dp - 1 < -4\<close> or \<open>dp - 1 \<ge> 6\<close>.
\<close>

definition stripZeros :: "string \<Rightarrow> string" where
  "stripZeros ds = rev (dropWhile (\<lambda>c. c = CHR ''0'') (rev ds))"

definition fmtE :: "string \<Rightarrow> nat \<Rightarrow> string" where
  "fmtE sig exp =
    hd sig # (if length sig > 1 then ''.'' @ tl sig else []) @ ''e+'' @
    (if exp < 10 then ''0'' else []) @ digits exp"

definition fmtFloat :: "int \<Rightarrow> string" where
  "fmtFloat n =
    (if n = 0 then ''0''
     else
       (let ds = digits (nat \<bar>n\<bar>);
            exp = length ds - 1;
            eprec = 6
        in (if n < 0 then ''-'' else []) @
           (if exp \<ge> eprec then fmtE (stripZeros ds) exp else ds)))"

definition joinSpace :: "string list \<Rightarrow> string" where
  "joinSpace xs = concat (case xs of [] \<Rightarrow> [] | x # ys \<Rightarrow> x # map (\<lambda>y. '' '' @ y) ys)"

fun sprintf_v :: "jvalue \<Rightarrow> string"
  and sprintf_entries :: "(string \<times> jvalue) list \<Rightarrow> string list" where
  "sprintf_v JNil = ''<nil>''"
| "sprintf_v (JBool b) = (if b then ''true'' else ''false'')"
| "sprintf_v (JNumber n) = fmtFloat n"
| "sprintf_v (JString s) = s"
| "sprintf_v (JArray xs) = ''['' @ joinSpace (map sprintf_v xs) @ '']''"
| "sprintf_v (JObject kvs) = ''map['' @ joinSpace (sprintf_entries kvs) @ '']''"
| "sprintf_entries [] = []"
| "sprintf_entries ((k, v) # kvs) = (k @ '':'' @ sprintf_v v) # sprintf_entries kvs"

section \<open>formatValue\<close>

text \<open>The type assertion \<^verbatim>\<open>value.(float64)\<close> in its comma-ok form.\<close>

fun assert_float64 :: "jvalue \<Rightarrow> int option" where
  "assert_float64 (JNumber n) = Some n"
| "assert_float64 _ = None"

text \<open>
  \<^verbatim>\<open>int64(timestamp / 1000)\<close>: the float quotient, then truncation towards zero.  For
  an integer \<open>timestamp\<close> with \<open>float64_exact timestamp\<close> the rounding of the quotient
  does not reach the next integer, so the result is the truncated integer quotient.
\<close>

definition millisToSeconds :: "int \<Rightarrow> int" where
  "millisToSeconds timestamp = timestamp sdiv 1000"

definition stringify :: "jvalue \<Rightarrow> string" where
  "stringify v = (let s = sprintf_v v in if s = ''<nil>'' then [] else s)"

definition formatValue :: "string \<Rightarrow> jvalue \<Rightarrow> string" where
  "formatValue key v =
    (if v = JNil then []
     else if key = ''Action_Filed'' \<or> key = ''Sale_Date'' then
       (case assert_float64 v of
          Some timestamp \<Rightarrow>
            if timestamp = 0 then []
            else formatUnixUTC (millisToSeconds timestamp)
        | None \<Rightarrow> stringify v)
     else stringify v)"

section \<open>The calendar, as a specification\<close>

text \<open>
  The Gregorian calendar counted forwards, to say which date and time of day a second of
  the Unix epoch is: the days before the first of January of a year (counted from the
  year 1), the lengths of the months, and the seconds from 1970-01-01 00:00:00 UTC to a
  date and time.
\<close>

definition days_before_year :: "int \<Rightarrow> int" where
  "days_before_year y = 365 * (y - 1) + (y - 1) div 4 - (y - 1) div 100 + (y - 1) div 400"

definition days_in_month :: "int \<Rightarrow> int \<Rightarrow> int" where
  "days_in_month y m =
    (if m = 2 then (if isLeap y then 29 else 28)
     else if m = 4 \<or> m = 6 \<or> m = 9 \<or> m = 11 then 30
     else 31)"

definition days_before_month :: "int \<Rightarrow> int \<Rightarrow> int" where
  "days_before_month y m = sum_list (map (days_in_month y) [1..m - 1])"

definition unix_of_civil :: "int \<Rightarrow> int \<Rightarrow> int \<Rightarrow> int \<Rightarrow> int \<Rightarrow> int \<Rightarrow> int" where
  "unix_of_civil y m d hh mm ss =
    (days_before_year y - days_before_year 1970 + days_before_month y m + (d - 1)) * 86400 +
    hh * 3600 + mm * 60 + ss"

definition valid_civil :: "int \<Rightarrow> int \<Rightarrow> int \<Rightarrow> int \<Rightarrow> int \<Rightarrow> int \<Rightarrow> bool" where
  "valid_civil y m d hh mm ss \<longleftrightarrow>
    1 \<le> m \<and> m \<le> 12 \<and> 1 \<le> d \<and> d \<le> days_in_month y m \<and>
    0 \<le> hh \<and> hh < 24 \<and> 0 \<le> mm \<and> mm < 60 \<and> 0 \<le> ss \<and> ss < 60"

section \<open>fetchBatch\<close>

definition url :: string where
  "url = ''https://services1.arcgis.com/79kfd2K6fskCAkyg/arcgis/rest/services/Louisville_Metro_KY_Property_Foreclosures/FeatureServer/0/query''"

text \<open>The structs the response is decoded into: only the attributes of a feature are kept.\<close>

record Feature =
  Attributes :: record_map

record QueryResult =
  Features :: "Feature list"

text \<open>
  A request is its method, its URL and its query.  The query is kept as the pairs that
  \<^verbatim>\<open>q.Encode()\<close> writes, which orders them by key.
\<close>

record request =
  Method :: string
  URL :: string
  RawQuery :: "(string \<times> string) list"

text \<open>
  A response is its status code and its body; the body is kept as what
  \<^verbatim>\<open>json.NewDecoder(resp.Body).Decode(&result)\<close> makes of it, the cause of the
  decoding error or the decoded \<open>QueryResult\<close>.
\<close>

record response =
  StatusCode :: nat
  Body :: "string + QueryResult"

text \<open>
  The HTTP client and the network behind it, \<^verbatim>\<open>client.Do\<close>: the cause of a transport
  error or a response.
\<close>

type_synonym http_client = "request \<Rightarrow> string + response"

text \<open>The error values \<open>fetchBatch\<close> returns, one constructor for each return statement.\<close>

datatype fetch_error =
    RequestError string
  | TransportError string
  | StatusError nat
  | DecodeError string

text \<open>\<^verbatim>\<open>strconv.Itoa\<close> of a number that is not negative.\<close>

definition Itoa :: "nat \<Rightarrow> string" where
  "Itoa n = digits n"

text \<open>
  \<^verbatim>\<open>http.NewRequest\<close> fails on a method or URL that is not well formed only; \<open>fetchBatch\<close>
  calls it on the constants \<^verbatim>\<open>GET\<close> and \<open>url\<close>, which are.
\<close>

definition NewRequest :: "string \<Rightarrow> string \<Rightarrow> string + request" where
  "NewRequest method u = Inr \<lparr>Method = method, URL = u, RawQuery = []\<rparr>"

definition StatusOK :: nat where
  "StatusOK = 200"

definition build_query :: "nat \<Rightarrow> (string \<times> string) list" where
  "build_query offset =
    [(''f'', ''json''),
     (''outFields'', ''*''),
     (''resultOffset'', Itoa offset),
     (''resultRecordCount'', Itoa batchSize),
     (''returnGeometry'', ''false''),
     (''where'', ''1=1'')]"

definition fetchBatch :: "nat \<Rightarrow> http_client \<Rightarrow> fetch_error + record_map list" where
  "fetchBatch offset client =
    (case NewRequest ''GET'' url of
       Inl err \<Rightarrow> Inl (RequestError err)
     | Inr req0 \<Rightarrow>
        (let req = req0\<lparr>RawQuery := build_query offset\<rparr>
         in case client req of
              Inl err \<Rightarrow> Inl (TransportError err)
            | Inr resp \<Rightarrow>
                if StatusCode resp \<noteq> StatusOK then Inl (StatusError (StatusCode resp))
                else
                  (case Body resp of
                     Inl err \<Rightarrow> Inl (DecodeError err)
                   | Inr result \<Rightarrow> Inr (map Attributes (Features result)))))"

text \<open>The request \<open>fetchBatch\<close> sends for an offset.\<close>

definition batch_request :: "nat \<Rightarrow> request" where
  "batch_request offset = \<lparr>Method = ''GET'', URL = url, RawQuery = build_query offset\<rparr>"

section \<open>main: the worker pool\<close>

text \<open>The lines \<open>main\<close> and its workers print.\<close>

datatype message =
    MsgStarting
  | MsgFetchError nat fetch_error
  | MsgFetched nat
  | MsgRowError
  | MsgSaved string
  | MsgNoData

text \<open>
  Where a worker goroutine stands: waiting to receive from the channel, about to call
  \<open>fetchBatch\<close> on the offset it received, waiting for the mutex, inside the statement
  \<^verbatim>\<open>allData = append(allData, records...)\<close> before and after it has read \<open>allData\<close>,
  about to unlock, or returned.
\<close>

datatype wpc =
    Recv
  | Fetch nat
  | Lock "record_map list"
  | AppendRead "record_map list"
  | AppendWrite "record_map list" "record_map list"
  | Unlock
  | Done

text \<open>
  The state shared by \<open>main\<close> and the workers: the loop counter of the feeding loop,
  whether the channel is closed, the buffer of the channel, the workers, the holder of the
  mutex, the accumulated records and the lines printed.  Two more fields keep what the
  run has done so far: the offsets \<open>main\<close> has sent on the channel and the offsets
  \<open>fetchBatch\<close> has been called on, each in the order it happened.
\<close>

record cstate =
  next_i :: nat
  closed :: bool
  offsets :: "nat list"
  dispatched :: "nat list"
  pcs :: "wpc list"
  mu :: "nat option"
  allData :: "record_map list"
  requests :: "nat list"
  stdout :: "message list"

text \<open>
  The remote service may answer the same request differently over time: the client of the
  \<open>k\<close>-th call of \<open>fetchBatch\<close> is \<open>client k\<close>.
\<close>

type_synonym service = "nat \<Rightarrow> http_client"

definition init :: "nat \<Rightarrow> cstate" where
  "init n =
    \<lparr>next_i = 0, closed = False, offsets = [], dispatched = [],
     pcs = replicate n Recv, mu = None,
     allData = [], requests = [], stdout = [MsgStarting]\<rparr>"

text \<open>
  One step of one goroutine.  The channel has the capacity \<open>workers\<close>, the number of
  workers; a send needs room in the buffer, a receive an element or the closed and drained
  channel; a lock needs the free mutex.
\<close>

inductive step :: "service \<Rightarrow> cstate \<Rightarrow> cstate \<Rightarrow> bool" for client :: service where
  send:
    "next_i s < maxBatches \<Longrightarrow> length (offsets s) < length (pcs s) \<Longrightarrow>
     step client s
       (s\<lparr>offsets := offsets s @ [next_i s * batchSize],
          dispatched := dispatched s @ [next_i s * batchSize],
          next_i := Suc (next_i s)\<rparr>)"
| close:
    "next_i s = maxBatches \<Longrightarrow> \<not> closed s \<Longrightarrow>
     step client s (s\<lparr>closed := True\<rparr>)"
| recv:
    "w < length (pcs s) \<Longrightarrow> pcs s ! w = Recv \<Longrightarrow> offsets s = offset # rest \<Longrightarrow>
     step client s (s\<lparr>offsets := rest, pcs := (pcs s)[w := Fetch offset]\<rparr>)"
| recv_closed:
    "w < length (pcs s) \<Longrightarrow> pcs s ! w = Recv \<Longrightarrow> offsets s = [] \<Longrightarrow> closed s \<Longrightarrow>
     step client s (s\<lparr>pcs := (pcs s)[w := Done]\<rparr>)"
| fetch_error:
    "w < length (pcs s) \<Longrightarrow> pcs s ! w = Fetch offset \<Longrightarrow>
     fetchBatch offset (client (length (requests s))) = Inl err \<Longrightarrow>
     step client s
       (s\<lparr>requests := requests s @ [offset],
          stdout := stdout s @ [MsgFetchError offset err],
          pcs := (pcs s)[w := Recv]\<rparr>)"
| fetch_empty:
    "w < length (pcs s) \<Longrightarrow> pcs s ! w = Fetch offset \<Longrightarrow>
     fetchBatch offset (client (length (requests s))) = Inr records \<Longrightarrow> length records = 0 \<Longrightarrow>
     step client s (s\<lparr>requests := requests s @ [offset], pcs := (pcs s)[w := Recv]\<rparr>)"
| fetch_records:
    "w < length (pcs s) \<Longrightarrow> pcs s ! w = Fetch offset \<Longrightarrow>
     fetchBatch offset (client (length (requests s))) = Inr records \<Longrightarrow> length records \<noteq> 0 \<Longrightarrow>
     step client s (s\<lparr>requests := requests s @ [offset], pcs := (pcs s)[w := Lock records]\<rparr>)"
| lock:
    "w < length (pcs s) \<Longrightarrow> pcs s ! w = Lock records \<Longrightarrow> mu s = None \<Longrightarrow>
     step client s (s\<lparr>mu := Some w, pcs := (pcs s)[w := AppendRead records]\<rparr>)"
| append_read:
    "w < length (pcs s) \<Longrightarrow> pcs s ! w = AppendRead records \<Longrightarrow>
     step client s (s\<lparr>pcs := (pcs s)[w := AppendWrite records (allData s @ records)]\<rparr>)"
| append_write:
    "w < length (pcs s) \<Longrightarrow> pcs s ! w = AppendWrite records new \<Longrightarrow>
     step client s (s\<lparr>allData := new, pcs := (pcs s)[w := Unlock]\<rparr>)"
| unlock:
    "w < length (pcs s) \<Longrightarrow> pcs s ! w = Unlock \<Longrightarrow>
     step client s (s\<lparr>mu := None, pcs := (pcs s)[w := Recv]\<rparr>)"

text \<open>The states a run with \<open>n\<close> workers can be in.\<close>

inductive reachable :: "service \<Rightarrow> nat \<Rightarrow> cstate \<Rightarrow> bool" for client :: service and n :: nat where
  reach_init: "reachable client n (init n)"
| reach_step: "reachable client n s \<Longrightarrow> step client s s' \<Longrightarrow> reachable client n s'"

text \<open>
  \<^verbatim>\<open>wg.Wait()\<close> returns when \<open>main\<close> has closed the channel and every worker has
  returned.
\<close>

definition finished :: "cstate \<Rightarrow> bool" where
  "finished s \<longleftrightarrow> closed s \<and> list_all (\<lambda>p. p = Done) (pcs s)"

text \<open>The offsets of the feeding loop, \<open>i * batchSize\<close> for \<open>i\<close> below \<open>maxBatches\<close>.\<close>

definition all_offsets :: "nat list" where
  "all_offsets = map (\<lambda>i. i * batchSize) [0..<maxBatches]"

text \<open>The offset a worker holds between its receive and its call of \<open>fetchBatch\<close>.\<close>

fun fetching :: "wpc \<Rightarrow> nat list" where
  "fetching (Fetch offset) = [offset]"
| "fetching _ = []"

text \<open>The records a worker has fetched and not yet stored in \<open>allData\<close>.\<close>

fun pending :: "wpc \<Rightarrow> record_map list" where
  "pending (Lock records) = records"
| "pending (AppendRead records) = records"
| "pending (AppendWrite records new) = records"
| "pending _ = []"

text \<open>Whether a worker is between \<^verbatim>\<open>mu.Lock()\<close> and \<^verbatim>\<open>mu.Unlock()\<close>.\<close>

fun in_cs :: "wpc \<Rightarrow> bool" where
  "in_cs (AppendRead records) = True"
| "in_cs (AppendWrite records new) = True"
| "in_cs Unlock = True"
| "in_cs _ = False"

text \<open>The records of the page the \<open>k\<close>-th call returns for an offset; none when it fails.\<close>

definition page :: "service \<Rightarrow> nat \<Rightarrow> nat \<Rightarrow> record_map list" where
  "page client k offset =
    (case fetchBatch offset (client k) of Inl err \<Rightarrow> [] | Inr records \<Rightarrow> records)"

text \<open>All records the calls made so far have returned.\<close>

definition fetched :: "service \<Rightarrow> nat list \<Rightarrow> record_map multiset" where
  "fetched client rs = (\<Sum>k<length rs. mset (page client k (rs ! k)))"

text \<open>How many steps a worker is away from its next receive, and a bound on the steps left.\<close>

fun rank :: "wpc \<Rightarrow> nat" where
  "rank (Fetch offset) = 6"
| "rank (Lock records) = 5"
| "rank (AppendRead records) = 4"
| "rank (AppendWrite records new) = 3"
| "rank Unlock = 2"
| "rank Recv = 1"
| "rank Done = 0"

definition steps_left :: "cstate \<Rightarrow> nat" where
  "steps_left s =
    8 * (maxBatches - next_i s) + 7 * length (offsets s) + sum_list (map rank (pcs s)) +
    (if closed s then 0 else 1)"

text \<open>The page of an offset when the service answers the same at every call.\<close>

definition fixed_page :: "http_client \<Rightarrow> nat \<Rightarrow> record_map list" where
  "fixed_page client offset = page (\<lambda>k. client) 0 offset"

section \<open>main: writing the file\<close>

text \<open>
  The file system as \<open>main\<close> meets it: whether \<^verbatim>\<open>os.MkdirAll\<close> and \<^verbatim>\<open>os.Create\<close>
  succeed, and whether the \<open>k\<close>-th call of \<^verbatim>\<open>writer.Write\<close> does (the header is call
  \<open>0\<close>).
\<close>

record fs_env =
  mkdir_ok :: bool
  create_ok :: bool
  write_ok :: "nat \<Rightarrow> bool"

text \<open>
  The row of a record: \<^verbatim>\<open>make([]string, len(csvHeaders))\<close>, then one assignment
  \<^verbatim>\<open>row[i] = formatValue(key, record[key])\<close> for each index and key of the headers.
\<close>

definition fill_row :: "record_map \<Rightarrow> string list" where
  "fill_row r =
    fold (\<lambda>(i, key) row. row[i := formatValue key (index_map r key)])
      (zip [0..<length csvHeaders] csvHeaders)
      (replicate (length csvHeaders) [])"

text \<open>
  The loop over the records: a row whose write fails is reported and the loop goes on.
  The file is kept as the rows \<^verbatim>\<open>writer.Write\<close> accepted.
\<close>

fun write_rows ::
  "(nat \<Rightarrow> bool) \<Rightarrow> nat \<Rightarrow> record_map list \<Rightarrow> string list list \<times> message list \<Rightarrow>
   string list list \<times> message list" where
  "write_rows wok k [] (rows, out) = (rows, out)"
| "write_rows wok k (r # rs) (rows, out) =
    (let row = fill_row r
     in if wok k then write_rows wok (Suc k) rs (rows @ [row], out)
        else write_rows wok (Suc k) rs (rows, out @ [MsgRowError]))"

text \<open>
  What the last part of \<open>main\<close> leaves behind: the file it created, if any, as its rows,
  the lines it printed, and whether it panicked.
\<close>

record saved =
  csv :: "string list list option"
  printed :: "message list"
  panicked :: bool

definition save :: "fs_env \<Rightarrow> record_map list \<Rightarrow> saved" where
  "save env data =
    (let out = [MsgFetched (length data)]
     in if length data > 0 then
          if \<not> mkdir_ok env then \<lparr>csv = None, printed = out, panicked = True\<rparr>
          else
            (let filePath = outputDir @ ''/'' @ outputFile
             in if \<not> create_ok env then \<lparr>csv = None, printed = out, panicked = True\<rparr>
                else if \<not> write_ok env 0 then \<lparr>csv = Some [], printed = out, panicked = True\<rparr>
                else
                  (let (rows, out') = write_rows (write_ok env) 1 data ([csvHeaders], out)
                   in \<lparr>csv = Some rows, printed = out' @ [MsgSaved filePath],
                        panicked = False\<rparr>))
        else \<lparr>csv = None, printed = out @ [MsgNoData], panicked = False\<rparr>)"

text \<open>The records whose rows the writer accepted, when the first of them is call \<open>k\<close>.\<close>

definition accepted :: "(nat \<Rightarrow> bool) \<Rightarrow> nat \<Rightarrow> record_map list \<Rightarrow> record_map list" where
  "accepted wok k rs = map snd (filter (\<lambda>(j, r). wok j) (zip [k..<k + length rs] rs))"

text \<open>The row of a record as the specification has it: one cell for each column.\<close>

definition spec_row :: "record_map \<Rightarrow> string list" where
  "spec_row r = map (\<lambda>key. formatValue key (index_map r key)) csvHeaders"

section \<open>Facts about the digits and the stringification\<close>

lemma digit_char_digit: "digit_char d \<in> set ''0123456789''"
  unfolding digit_char_def by (rule nth_mem) simp

lemma digits_nonempty: "digits n \<noteq> []"
  by (subst digits.simps) simp

lemma set_digits: "set (digits n) \<subseteq> set ''0123456789''"
proof (induction n rule: digits.induct)
  case (1 n)
  show ?case
  proof (cases "n < 10")
    case True
    then show ?thesis using digit_char_digit [of n] by (subst digits.simps) simp
  next
    case False
    then show ?thesis using 1 digit_char_digit [of "n mod 10"] by (subst digits.simps) simp
  qed
qed

lemma last_digits: "last (digits n) \<in> set ''0123456789''"
  using set_digits [of n] digits_nonempty [of n] last_in_set by blast

lemma last_fmtFloat: "last (fmtFloat n) \<in> set ''0123456789''"
  using last_digits [of "nat \<bar>n\<bar>"] last_digits [of "length (digits (nat \<bar>n\<bar>)) - 1"]
    digits_nonempty [of "nat \<bar>n\<bar>"] digits_nonempty [of "length (digits (nat \<bar>n\<bar>)) - 1"]
  by (simp add: fmtFloat_def fmtE_def Let_def)

lemma fmtFloat_not_nil: "fmtFloat n \<noteq> ''<nil>''"
proof
  assume "fmtFloat n = ''<nil>''"
  then have "last (fmtFloat n) = CHR ''>''" by simp
  with last_fmtFloat [of n] show False by simp
qed


lemma sprintf_v_nil_iff: "sprintf_v v = ''<nil>'' \<longleftrightarrow> v = JNil \<or> v = JString ''<nil>''"
  by (cases v) (auto simp: fmtFloat_not_nil)

lemma last_formatUnixUTC: "last (formatUnixUTC sec) = CHR ''0''"
  by (simp add: formatUnixUTC_def Let_def split: prod.splits)

lemma formatUnixUTC_not_nil: "formatUnixUTC sec \<noteq> ''<nil>''"
  using last_formatUnixUTC [of sec] by auto


lemmas eval_appendInt = appendInt_def digits.simps digit_char_def


subsection \<open>Evaluating the date functions step by step\<close>

lemma absYearDay_eval:
  assumes "asec div 86400 = da"
    and "da div 146097 = na" and "da - 146097 * na = db"
    and "db div 36524 = qb" and "qb - qb div 4 = nb" and "db - 36524 * nb = dc"
    and "dc div 1461 = nc" and "dc - 1461 * nc = dd"
    and "dd div 365 = qd" and "qd - qd div 4 = nd" and "dd - 365 * nd = de"
    and "400 * na + 100 * nb + 4 * nc + nd + absoluteZeroYear = y"
  shows "absYearDay asec = (y, de)"
  unfolding absYearDay_def secondsPerDay_def Let_def
  unfolding assms(1) assms(2) assms(3) assms(4) assms(5) assms(6) assms(7) assms(8) assms(9)
    assms(10) assms(11)
  using assms(12) by simp

lemma formatUnixUTC_eval:
  assumes "abs_seconds sec = a" and "absYearDay a = (y, yd)"
    and "monthDay (isLeap y) yd = (m, d)" and "absClock a = (hh, mm, ss)"
  shows "formatUnixUTC sec =
    appendInt y 4 @ ''/'' @ appendInt m 2 @ ''/'' @ appendInt d 2 @ '' '' @
    appendInt hh 2 @ '':'' @ appendInt mm 2 @ '':'' @ appendInt ss 2 @ ''+00''"
  using assms by (simp add: formatUnixUTC_def absDate_def)

lemmas eval_abs = abs_seconds_def unixToAbsolute_def

lemmas eval_month = monthDay_def isLeap_def daysBefore_def Let_def

lemmas eval_clock = absClock_def secondsPerDay_def Let_def


lemma formatUnixUTC_2021: "formatUnixUTC 1615766400 = ''2021/03/15 00:00:00+00''"
proof -
  have "abs_seconds 1615766400 = 9223372030331088000" by (simp add: eval_abs)
  moreover have "absYearDay 9223372030331088000 = (2021, 73)"
    by (rule absYearDay_eval [where da = 106751991091795 and na = 730692561 and db = 7378 and qb = 0 and nb = 0 and dc = 7378 and nc = 5 and dd = 73 and qd = 0 and nd = 0])
      (simp_all add: absoluteZeroYear_def)
  moreover have "monthDay (isLeap 2021) 73 = (3, 15)" by (simp add: eval_month)
  moreover have "absClock 9223372030331088000 = (0, 0, 0)" by (simp add: eval_clock)
  ultimately have "formatUnixUTC 1615766400 =
    appendInt 2021 4 @ ''/'' @ appendInt 3 2 @ ''/'' @ appendInt 15 2 @ '' '' @
    appendInt 0 2 @ '':'' @ appendInt 0 2 @ '':'' @ appendInt 0 2 @ ''+00''"
    by (rule formatUnixUTC_eval)
  then show ?thesis by (simp add: eval_appendInt)
qed

section \<open>The date functions against the calendar\<close>

lemma div_bounds: "0 < c \<Longrightarrow> c * (x div c) \<le> x \<and> x < c * (x div c) + c" for c x :: int
  by (metis add.commute mult.commute div_mult_mod_eq pos_mod_bound pos_mod_sign add_strict_left_mono le_add_same_cancel1 add_le_cancel_left)

lemma div_eqI: "x = c * q + r \<Longrightarrow> 0 \<le> r \<Longrightarrow> r < c \<Longrightarrow> x div c = q" for c x :: int
  by (simp add: div_pos_pos_trivial)

lemma mod_zero_iff_top: "0 < t \<Longrightarrow> t \<le> c \<Longrightarrow> t mod c = 0 \<longleftrightarrow> t = c" for t c :: int
proof (cases "t = c")
  case True
  then show ?thesis by simp
next
  case False
  assume "0 < t" and "t \<le> c"
  with False have "t mod c = t" by simp
  with \<open>0 < t\<close> False show ?thesis by simp
qed

lemma cap4: "0 \<le> q \<Longrightarrow> q \<le> 4 \<Longrightarrow> q - q div 4 = (if q = 4 then 3 else q)" for q :: int
  by presburger

lemma step400:
  fixes D :: int
  assumes "na = D div 146097" and "db = D - 146097 * na"
  shows "0 \<le> db \<and> db < 146097"
  using div_bounds [of 146097 D] assms by simp

lemma step100:
  fixes db :: int
  assumes "0 \<le> db" and "db < 146097" and "qb = db div 36524" and "nb = qb - qb div 4"
    and "dc = db - 36524 * nb"
  shows "0 \<le> nb \<and> nb \<le> 3 \<and> 0 \<le> dc \<and> dc \<le> 36524 \<and> (dc = 36524 \<longrightarrow> nb = 3)"
proof -
  from div_bounds [of 36524 db] assms(3) have q: "36524 * qb \<le> db" "db < 36524 * qb + 36524" by simp_all
  with assms(1,2) have qb: "0 \<le> qb" "qb \<le> 4" by linarith+
  from cap4 [OF qb] assms(4) have nb: "nb = (if qb = 4 then 3 else qb)" by simp
  show ?thesis using q qb nb assms(1,2,5) by (auto split: if_splits)
qed

lemma step4:
  fixes dc :: int
  assumes "0 \<le> dc" and "dc \<le> 36524" and "nc = dc div 1461" and "dd = dc - 1461 * nc"
  shows "0 \<le> nc \<and> nc \<le> 24 \<and> 0 \<le> dd \<and> dd < 1461"
proof -
  from div_bounds [of 1461 dc] assms(3) have q: "1461 * nc \<le> dc" "dc < 1461 * nc + 1461" by simp_all
  with assms(1,2) have "0 \<le> nc" "nc \<le> 24" by linarith+
  with q assms(4) show ?thesis by simp
qed

lemma step1:
  fixes dd :: int
  assumes "0 \<le> dd" and "dd < 1461" and "qd = dd div 365" and "nd = qd - qd div 4"
    and "de = dd - 365 * nd"
  shows "0 \<le> nd \<and> nd \<le> 3 \<and> 0 \<le> de \<and> de \<le> 365 \<and> (de = 365 \<longrightarrow> nd = 3 \<and> dd = 1460)"
proof -
  from div_bounds [of 365 dd] assms(3) have q: "365 * qd \<le> dd" "dd < 365 * qd + 365" by simp_all
  with assms(1,2) have qd: "0 \<le> qd" "qd \<le> 4" by linarith+
  from cap4 [OF qd] assms(4) have nd: "nd = (if qd = 4 then 3 else qd)" by simp
  show ?thesis using q qd nd assms(1,2,5) by (auto split: if_splits)
qed

text \<open>
  The years counted by the cycles: \<open>na\<close> cycles of 400 years, \<open>nb\<close> of 100, \<open>nc\<close> of 4 and
  \<open>nd\<close> single years after the absolute zero year, which follows a multiple of 400.
\<close>

lemma cycle_days:
  fixes na nb nc nd :: int
  assumes "0 \<le> nb" "nb \<le> 3" "0 \<le> nc" "nc \<le> 24" "0 \<le> nd" "nd \<le> 3"
    and "Y = 400 * na + 100 * nb + 4 * nc + nd"
  shows "days_before_year (Y + absoluteZeroYear) - days_before_year absoluteZeroYear =
    146097 * na + 36524 * nb + 1461 * nc + 365 * nd"
proof -
  let ?x = "Y + absoluteZeroYear - 1"
  have d4: "?x div 4 = 100 * na + 25 * nb + nc - 73069255600"
    using assms by (intro div_eqI [where r = nd]) (simp_all add: absoluteZeroYear_def)
  have d100: "?x div 100 = 4 * na + nb - 2922770224"
    using assms by (intro div_eqI [where r = "4 * nc + nd"]) (simp_all add: absoluteZeroYear_def)
  have d400: "?x div 400 = na - 730692556"
    using assms by (intro div_eqI [where r = "100 * nb + 4 * nc + nd"]) (simp_all add: absoluteZeroYear_def)
  have z: "days_before_year absoluteZeroYear = - 106751990353932"
    by (simp add: days_before_year_def absoluteZeroYear_def)
  show ?thesis
    unfolding z unfolding days_before_year_def d4 d100 d400
    using assms(7) by (simp add: absoluteZeroYear_def)
qed

lemma cycle_leap:
  fixes na nb nc nd :: int
  assumes "0 \<le> nb" "nb \<le> 3" "0 \<le> nc" "nc \<le> 24" "0 \<le> nd" "nd \<le> 3"
    and "Y = 400 * na + 100 * nb + 4 * nc + nd"
  shows "isLeap (Y + absoluteZeroYear) \<longleftrightarrow> nd = 3 \<and> (nc \<noteq> 24 \<or> nb = 3)"
proof -
  let ?y = "Y + absoluteZeroYear"
  have "?y = 4 * (100 * na + 25 * nb + nc - 73069255600) + (nd + 1)"
    using assms(7) by (simp add: absoluteZeroYear_def)
  then have "?y mod 4 = (nd + 1) mod 4" by (simp only: mod_mult_self4)
  moreover have "(nd + 1) mod 4 = 0 \<longleftrightarrow> nd = 3" using assms(5,6) by presburger
  ultimately have m4: "?y mod 4 = 0 \<longleftrightarrow> nd = 3" by simp
  have "?y = 100 * (4 * na + nb - 2922770224) + (4 * nc + nd + 1)"
    using assms(7) by (simp add: absoluteZeroYear_def)
  then have "?y mod 100 = (4 * nc + nd + 1) mod 100" by (simp only: mod_mult_self4)
  moreover have "(4 * nc + nd + 1) mod 100 = 0 \<longleftrightarrow> nc = 24 \<and> nd = 3"
  proof -
    have "0 < 4 * nc + nd + 1" "4 * nc + nd + 1 \<le> 100" using assms by linarith+
    then have "(4 * nc + nd + 1) mod 100 = 0 \<longleftrightarrow> 4 * nc + nd + 1 = 100"
      by (rule mod_zero_iff_top)
    moreover have "nc = 24" "nd = 3" if "4 * nc + nd + 1 = 100"
      using that assms(3-6) by linarith+
    ultimately show ?thesis by auto
  qed
  ultimately have m100: "?y mod 100 = 0 \<longleftrightarrow> nc = 24 \<and> nd = 3" by simp
  have "?y = 400 * (na - 730692556) + (100 * nb + 4 * nc + nd + 1)"
    using assms(7) by (simp add: absoluteZeroYear_def)
  then have "?y mod 400 = (100 * nb + 4 * nc + nd + 1) mod 400" by (simp only: mod_mult_self4)
  moreover have "(100 * nb + 4 * nc + nd + 1) mod 400 = 0 \<longleftrightarrow> nb = 3 \<and> nc = 24 \<and> nd = 3"
  proof -
    have "0 < 100 * nb + 4 * nc + nd + 1" "100 * nb + 4 * nc + nd + 1 \<le> 400" using assms by linarith+
    then have "(100 * nb + 4 * nc + nd + 1) mod 400 = 0 \<longleftrightarrow> 100 * nb + 4 * nc + nd + 1 = 400"
      by (rule mod_zero_iff_top)
    moreover have "nb = 3" "nc = 24" "nd = 3" if "100 * nb + 4 * nc + nd + 1 = 400"
      using that assms(1-6) by linarith+
    ultimately show ?thesis by auto
  qed
  ultimately have m400: "?y mod 400 = 0 \<longleftrightarrow> nb = 3 \<and> nc = 24 \<and> nd = 3" by simp
  show ?thesis unfolding isLeap_def m4 m100 m400 by auto
qed

section \<open>Facts about the writer\<close>

lemma upt_shift: "[k..<k + length (x # xs)] = k # [Suc k..<Suc k + length xs]"
proof -
  have "k < k + length (x # xs)" by simp
  then have "[k..<k + length (x # xs)] = k # [Suc k..<k + length (x # xs)]" by (rule upt_conv_Cons)
  moreover have "k + length (x # xs) = Suc k + length xs" by simp
  ultimately show ?thesis by (simp only:)
qed

lemma fold_fill:
  "length xs = n \<Longrightarrow>
   fold (\<lambda>(i, key) row. row[i := f key]) (zip [n..<n + length ks] ks) (xs @ replicate (length ks) d)
     = xs @ map f ks"
proof (induction ks arbitrary: n xs)
  case Nil
  then show ?case by simp
next
  case (Cons k ks)
  have upt: "[n..<n + length (k # ks)] = n # [Suc n..<Suc n + length ks]"
    by (rule upt_shift)
  have upd: "(xs @ replicate (length (k # ks)) d)[n := f k] = (xs @ [f k]) @ replicate (length ks) d"
    using Cons.prems by (simp add: list_update_append)
  have len: "length (xs @ [f k]) = Suc n" using Cons.prems by simp
  have "fold (\<lambda>(i, key) row. row[i := f key]) (zip [n..<n + length (k # ks)] (k # ks))
          (xs @ replicate (length (k # ks)) d)
        = fold (\<lambda>(i, key) row. row[i := f key]) (zip [Suc n..<Suc n + length ks] ks)
          ((xs @ replicate (length (k # ks)) d)[n := f k])"
    by (simp only: upt zip_Cons_Cons fold_simps case_prod_conv)
  also have "\<dots> = (xs @ [f k]) @ map f ks"
    unfolding upd by (rule Cons.IH [OF len])
  finally show ?case by simp
qed

lemma fill_row_spec: "fill_row r = spec_row r"
  using fold_fill [of "[]" 0 "\<lambda>key. formatValue key (index_map r key)" csvHeaders "[]"]
  by (simp add: fill_row_def spec_row_def)


lemma accepted_Nil: "accepted wok k [] = []"
  by (simp add: accepted_def)

lemma accepted_Cons:
  "accepted wok k (r # rs) = (if wok k then r # accepted wok (Suc k) rs else accepted wok (Suc k) rs)"
proof -
  have "[k..<k + length (r # rs)] = k # [Suc k..<Suc k + length rs]"
    by (rule upt_shift)
  then show ?thesis unfolding accepted_def by (simp only: zip_Cons_Cons) simp
qed

lemma length_accepted: "length (accepted wok k rs) \<le> length rs"
  by (induction rs arbitrary: k) (simp_all add: accepted_Nil accepted_Cons le_SucI)

lemma write_rows_eq:
  "write_rows wok k rs (rows, out) =
    (rows @ map spec_row (accepted wok k rs),
     out @ replicate (length rs - length (accepted wok k rs)) MsgRowError)"
proof (induction rs arbitrary: k rows out)
  case Nil
  then show ?case by (simp add: accepted_Nil)
next
  case (Cons r rs)
  show ?case
  proof (cases "wok k")
    case True
    then show ?thesis using Cons.IH by (simp add: accepted_Cons fill_row_spec)
  next
    case False
    then show ?thesis using Cons.IH length_accepted [of wok "Suc k" rs]
      by (simp add: accepted_Cons Suc_diff_le replicate_app_Cons_same)
  qed
qed


section \<open>formatValue on every shape of value\<close>



section \<open>Absent values\<close>

text \<open>
  C6.  For every column a nil value, and so a key missing from the record, gives the empty
  string; on a column that is not a date column a value whose \<^verbatim>\<open>%v\<close> text is the marker
  \<^verbatim>\<open><nil>\<close> gives the empty string too.  The marker itself is never returned.
\<close>

theorem formatValue_absent:
  "formatValue key JNil = [] \<and>
   (r key = None \<longrightarrow> formatValue key (index_map r key) = []) \<and>
   (key \<noteq> ''Action_Filed'' \<and> key \<noteq> ''Sale_Date'' \<and> sprintf_v v = ''<nil>'' \<longrightarrow>
      formatValue key v = []) \<and>
   formatValue key v \<noteq> ''<nil>''"
  by (auto simp: formatValue_def stringify_def index_map_def Let_def formatUnixUTC_not_nil
      split: option.splits)

theorem formatValue_absent_witness:
  "formatValue ''Zip'' JNil = [] \<and>
   (Map.empty :: record_map) ''Zip'' = None \<and> formatValue ''Zip'' (index_map Map.empty ''Zip'') = [] \<and>
   ''Zip'' \<noteq> ''Action_Filed'' \<and> ''Zip'' \<noteq> ''Sale_Date'' \<and> sprintf_v (JString ''<nil>'') = ''<nil>'' \<and>
   formatValue ''Zip'' (JString ''<nil>'') = []"
  using formatValue_absent [of "''Zip''" Map.empty "JString ''<nil>''"]
  by simp

section \<open>Numbers on the other columns\<close>





section \<open>fetchBatch is all or nothing\<close>

lemma fetchBatch_cases:
  "fetchBatch offset client =
    (case client (batch_request offset) of
       Inl cause \<Rightarrow> Inl (TransportError cause)
     | Inr resp \<Rightarrow>
         if StatusCode resp \<noteq> 200 then Inl (StatusError (StatusCode resp))
         else (case Body resp of
                 Inl cause \<Rightarrow> Inl (DecodeError cause)
               | Inr result \<Rightarrow> Inr (map Attributes (Features result))))"
  unfolding fetchBatch_def NewRequest_def StatusOK_def batch_request_def by simp



section \<open>The rows of the file\<close>

lemma save_csv:
  assumes "data \<noteq> []" and "mkdir_ok env" and "create_ok env" and "write_ok env 0"
  shows "save env data =
    \<lparr>csv = Some (csvHeaders # map spec_row (accepted (write_ok env) 1 data)),
     printed = MsgFetched (length data) #
       replicate (length data - length (accepted (write_ok env) 1 data)) MsgRowError @
       [MsgSaved (outputDir @ ''/'' @ outputFile)],
     panicked = False\<rparr>"
  using assms by (simp add: save_def Let_def write_rows_eq)



section \<open>The header of the file\<close>



section \<open>The outcome of a run\<close>

text \<open>
  C9.  With no records \<open>main\<close> creates no file and prints, after the count, the line that
  no data was retrieved.  With records (and the directory and the file created and the
  header written) it creates the file and prints the number of records first and the
  path of the file last, and never the line that no data was retrieved.
\<close>

theorem save_outcome:
  "(data = [] \<longrightarrow>
      save env data = \<lparr>csv = None, printed = [MsgFetched 0, MsgNoData], panicked = False\<rparr>) \<and>
   (data \<noteq> [] \<longrightarrow> MsgNoData \<notin> set (printed (save env data))) \<and>
   (data \<noteq> [] \<and> mkdir_ok env \<and> create_ok env \<and> write_ok env 0 \<longrightarrow>
      csv (save env data) \<noteq> None \<and> \<not> panicked (save env data) \<and>
      hd (printed (save env data)) = MsgFetched (length data) \<and>
      last (printed (save env data)) =
        MsgSaved ''data/Louisville_Metro_KY_-_Property_Foreclosures.csv'')"
proof (cases "data = []")
  case True
  then show ?thesis by (simp add: save_def)
next
  case False
  have nodata: "MsgNoData \<notin> set (printed (save env data))"
    using False by (auto simp: save_def Let_def write_rows_eq)
  have ok: "csv (save env data) \<noteq> None \<and> \<not> panicked (save env data) \<and>
      hd (printed (save env data)) = MsgFetched (length data) \<and>
      last (printed (save env data)) =
        MsgSaved ''data/Louisville_Metro_KY_-_Property_Foreclosures.csv''"
    if "mkdir_ok env" and "create_ok env" and "write_ok env 0"
    by (simp add: save_csv [OF False that] outputDir_def outputFile_def)
  show ?thesis using False nodata ok by simp
qed

theorem save_outcome_witness:
  "save \<lparr>mkdir_ok = True, create_ok = True, write_ok = \<lambda>k. True\<rparr> [] =
     \<lparr>csv = None, printed = [MsgFetched 0, MsgNoData], panicked = False\<rparr> \<and>
   csv (save \<lparr>mkdir_ok = True, create_ok = True, write_ok = \<lambda>k. True\<rparr> [Map.empty]) \<noteq> None \<and>
   hd (printed (save \<lparr>mkdir_ok = True, create_ok = True, write_ok = \<lambda>k. True\<rparr> [Map.empty])) =
     MsgFetched 1 \<and>
   last (printed (save \<lparr>mkdir_ok = True, create_ok = True, write_ok = \<lambda>k. True\<rparr> [Map.empty])) =
     MsgSaved ''data/Louisville_Metro_KY_-_Property_Foreclosures.csv'' \<and>
   MsgNoData \<notin> set (printed (save \<lparr>mkdir_ok = True, create_ok = True, write_ok = \<lambda>k. True\<rparr> [Map.empty]))"
proof -
  let ?env = "\<lparr>mkdir_ok = True, create_ok = True, write_ok = \<lambda>k. True\<rparr>"
  have a: "save ?env [] = \<lparr>csv = None, printed = [MsgFetched 0, MsgNoData], panicked = False\<rparr>"
    using save_outcome [of "[]" ?env] by simp
  have b: "csv (save ?env [Map.empty]) \<noteq> None \<and>
      hd (printed (save ?env [Map.empty])) = MsgFetched 1 \<and>
      last (printed (save ?env [Map.empty])) =
        MsgSaved ''data/Louisville_Metro_KY_-_Property_Foreclosures.csv'' \<and>
      MsgNoData \<notin> set (printed (save ?env [Map.empty]))"
    using save_outcome [of "[Map.empty]" ?env] by simp
  from a b show ?thesis by simp
qed

section \<open>Invariants of the worker pool\<close>

lemma mset_concat_split:
  assumes "w < length ps"
  shows "\<exists>R. mset (concat (map f ps)) = R + mset (f (ps ! w)) \<and>
    (\<forall>p. mset (concat (map f (ps[w := p]))) = R + mset (f p))"
proof -
  let ?R = "mset (concat (map f (take w ps))) + mset (concat (map f (drop (Suc w) ps)))"
  have "ps = take w ps @ ps ! w # drop (Suc w) ps"
    using assms by (rule id_take_nth_drop)
  then have "mset (concat (map f ps)) = mset (concat (map f (take w ps @ ps ! w # drop (Suc w) ps)))"
    by simp
  then have "mset (concat (map f ps)) = ?R + mset (f (ps ! w))"
    by (simp add: ac_simps)
  moreover have "mset (concat (map f (ps[w := p]))) = ?R + mset (f p)" for p
    using assms by (simp add: upd_conv_take_nth_drop ac_simps)
  ultimately show ?thesis by blast
qed

lemma mset_account:
  fixes A :: "'a multiset"
  assumes "A' + P + D = A + Q + D'" and "A + (R + Q) = D"
  shows "A' + (R + P) = D'"
proof -
  from assms have "A' + P + (A + (R + Q)) = A + Q + D'" by simp
  then have "(A' + (R + P)) + (A + Q) = D' + (A + Q)" by (simp add: ac_simps)
  then show ?thesis by (simp only: add_right_cancel)
qed

lemma sum_rank_update:
  "w < length ps \<Longrightarrow>
   sum_list (map rank (ps[w := p])) + rank (ps ! w) = sum_list (map rank ps) + rank p"
proof (induction ps arbitrary: w)
  case Nil
  then show ?case by simp
next
  case (Cons q ps)
  then show ?case by (cases w) simp_all
qed

lemma Done_update:
  "Done \<in> set (ps[w := p]) \<Longrightarrow> p \<noteq> Done \<Longrightarrow> Done \<in> set ps"
  using set_update_subset_insert [of ps w p] by auto

lemma reachable_basic:
  assumes "reachable client n s"
  shows "length (pcs s) = n \<and> next_i s \<le> maxBatches \<and> (closed s \<longrightarrow> next_i s = maxBatches) \<and>
    length (offsets s) \<le> n \<and> dispatched s = map (\<lambda>i. i * batchSize) [0..<next_i s] \<and>
    (Done \<in> set (pcs s) \<longrightarrow> closed s \<and> offsets s = [])"
  using assms
proof (induction rule: reachable.induct)
  case reach_init
  show ?case by (simp add: init_def)
next
  case (reach_step s s')
  from reach_step.hyps(2) show ?case
  proof cases
    case send
    then show ?thesis using reach_step.IH by auto
  next
    case close
    then show ?thesis using reach_step.IH by auto
  next
    case (recv w offset rest)
    then show ?thesis using reach_step.IH by (auto dest: Done_update)
  next
    case (recv_closed w)
    then show ?thesis using reach_step.IH by auto
  next
    case (fetch_error w offset err)
    then show ?thesis using reach_step.IH by (auto dest: Done_update)
  next
    case (fetch_empty w offset records)
    then show ?thesis using reach_step.IH by (auto dest: Done_update)
  next
    case (fetch_records w offset records)
    then show ?thesis using reach_step.IH by (auto dest: Done_update)
  next
    case (lock w records)
    then show ?thesis using reach_step.IH by (auto dest: Done_update)
  next
    case (append_read w records)
    then show ?thesis using reach_step.IH by (auto dest: Done_update)
  next
    case (append_write w records new)
    then show ?thesis using reach_step.IH by (auto dest: Done_update)
  next
    case (unlock w)
    then show ?thesis using reach_step.IH by (auto dest: Done_update)
  qed
qed

lemma reachable_offsets:
  assumes "reachable client n s"
  shows "mset (requests s) + mset (offsets s) + mset (concat (map fetching (pcs s))) =
    mset (dispatched s)"
  using assms
proof (induction rule: reachable.induct)
  case reach_init
  show ?case by (simp add: init_def)
next
  case (reach_step s s')
  have upd: "mset (requests s') + mset (offsets s') + mset (concat (map fetching (pcs s'))) =
      mset (dispatched s')"
    if "w < length (pcs s)" and "pcs s' = (pcs s)[w := p]"
      and "mset (requests s') + mset (offsets s') + mset (fetching p) + mset (dispatched s) =
           mset (requests s) + mset (offsets s) + mset (fetching (pcs s ! w)) + mset (dispatched s')"
    for w p
  proof -
    from mset_concat_split [OF that(1), of fetching]
    obtain R where R: "mset (concat (map fetching (pcs s))) = R + mset (fetching (pcs s ! w))"
      "\<And>p. mset (concat (map fetching ((pcs s)[w := p]))) = R + mset (fetching p)"
      by blast
    have "mset (requests s) + mset (offsets s) + (R + mset (fetching (pcs s ! w))) = mset (dispatched s)"
      using reach_step.IH R(1) by simp
    from mset_account [OF that(3) this] show ?thesis using R(2) that(2) by simp
  qed
  from reach_step.hyps(2) show ?case
  proof cases
    case send
    then show ?thesis using reach_step.IH by simp
  next
    case close
    then show ?thesis using reach_step.IH by simp
  next
    case (recv w offset rest)
    then show ?thesis by (intro upd [of w "Fetch offset"]) simp_all
  next
    case (recv_closed w)
    then show ?thesis by (intro upd [of w Done]) simp_all
  next
    case (fetch_error w offset err)
    then show ?thesis by (intro upd [of w Recv]) simp_all
  next
    case (fetch_empty w offset records)
    then show ?thesis by (intro upd [of w Recv]) simp_all
  next
    case (fetch_records w offset records)
    then show ?thesis by (intro upd [of w "Lock records"]) simp_all
  next
    case (lock w records)
    then show ?thesis by (intro upd [of w "AppendRead records"]) simp_all
  next
    case (append_read w records)
    then show ?thesis by (intro upd [of w "AppendWrite records (allData s @ records)"]) simp_all
  next
    case (append_write w records new)
    then show ?thesis by (intro upd [of w Unlock]) simp_all
  next
    case (unlock w)
    then show ?thesis by (intro upd [of w Recv]) simp_all
  qed
qed

text \<open>The mutex: a worker is between lock and unlock exactly when it holds the mutex.\<close>

lemma reachable_mutex:
  assumes "reachable client n s"
  shows "\<forall>w<length (pcs s). in_cs (pcs s ! w) \<longleftrightarrow> mu s = Some w"
  using assms
proof (induction rule: reachable.induct)
  case reach_init
  show ?case by (simp add: init_def)
next
  case (reach_step s s')
  from reach_step.hyps(2) show ?case
  proof cases
    case send
    then show ?thesis using reach_step.IH by simp
  next
    case close
    then show ?thesis using reach_step.IH by simp
  next
    case (recv w offset rest)
    then show ?thesis using reach_step.IH by (auto simp: nth_list_update)
  next
    case (recv_closed w)
    then show ?thesis using reach_step.IH by (auto simp: nth_list_update)
  next
    case (fetch_error w offset err)
    then show ?thesis using reach_step.IH by (auto simp: nth_list_update)
  next
    case (fetch_empty w offset records)
    then show ?thesis using reach_step.IH by (auto simp: nth_list_update)
  next
    case (fetch_records w offset records)
    then show ?thesis using reach_step.IH by (auto simp: nth_list_update)
  next
    case (lock w records)
    then show ?thesis using reach_step.IH by (auto simp: nth_list_update)
  next
    case (append_read w records)
    then show ?thesis using reach_step.IH by (auto simp: nth_list_update)
  next
    case (append_write w records new)
    then show ?thesis using reach_step.IH by (auto simp: nth_list_update)
  next
    case (unlock w)
    then show ?thesis using reach_step.IH by (auto simp: nth_list_update)
  qed
qed

lemma reachable_exclusive:
  assumes "reachable client n s" and "w < length (pcs s)" and "v < length (pcs s)"
    and "in_cs (pcs s ! w)" and "in_cs (pcs s ! v)"
  shows "w = v"
  using reachable_mutex [OF assms(1)] assms(2-) by auto

text \<open>
  The statement \<^verbatim>\<open>allData = append(allData, records...)\<close> under the mutex: what a
  worker is about to store is the current \<open>allData\<close> followed by its records.
\<close>

lemma reachable_append:
  assumes "reachable client n s"
  shows "\<forall>w<length (pcs s). \<forall>records new.
    pcs s ! w = AppendWrite records new \<longrightarrow> new = allData s @ records"
  using assms
proof (induction rule: reachable.induct)
  case reach_init
  show ?case by (simp add: init_def)
next
  case (reach_step s s')
  note excl = reachable_exclusive [OF reach_step.hyps(1)]
  have old: "m = allData s @ r" if "v < length (pcs s)" and "pcs s ! v = AppendWrite r m" for v r m
    using reach_step.IH that by blast
  have keep: "\<forall>v<length (pcs s'). \<forall>r m. pcs s' ! v = AppendWrite r m \<longrightarrow> m = allData s' @ r"
    if "pcs s' = (pcs s)[w := p]" and "allData s' = allData s"
      and "\<And>r m. p = AppendWrite r m \<Longrightarrow> m = allData s @ r" for w p
  proof (intro allI impI)
    fix v r m
    assume v: "v < length (pcs s')" and at: "pcs s' ! v = AppendWrite r m"
    show "m = allData s' @ r"
    proof (cases "v = w")
      case True
      with v at that(1) have "p = AppendWrite r m" by simp
      then show ?thesis using that(2,3) by simp
    next
      case False
      with v at that(1) have "v < length (pcs s)" and "pcs s ! v = AppendWrite r m" by simp_all
      then show ?thesis using old that(2) by simp
    qed
  qed
  from reach_step.hyps(2) show ?case
  proof cases
    case send
    then show ?thesis using reach_step.IH by simp
  next
    case close
    then show ?thesis using reach_step.IH by simp
  next
    case (recv w offset rest)
    then show ?thesis by (intro keep [of w "Fetch offset"]) simp_all
  next
    case (recv_closed w)
    then show ?thesis by (intro keep [of w Done]) simp_all
  next
    case (fetch_error w offset err)
    then show ?thesis by (intro keep [of w Recv]) simp_all
  next
    case (fetch_empty w offset records)
    then show ?thesis by (intro keep [of w Recv]) simp_all
  next
    case (fetch_records w offset records)
    then show ?thesis by (intro keep [of w "Lock records"]) simp_all
  next
    case (lock w records)
    then show ?thesis by (intro keep [of w "AppendRead records"]) simp_all
  next
    case (append_read w records)
    then show ?thesis by (intro keep [of w "AppendWrite records (allData s @ records)"]) simp_all
  next
    case (append_write w records new)
    show ?thesis
    proof (intro allI impI)
      fix v r m
      assume v: "v < length (pcs s')" and at: "pcs s' ! v = AppendWrite r m"
      have "v \<noteq> w" using v at append_write by auto
      with v at append_write have "v < length (pcs s)" and "pcs s ! v = AppendWrite r m" by simp_all
      with excl [of v w] append_write have "v = w" by simp
      with \<open>v \<noteq> w\<close> show "m = allData s' @ r" by simp
    qed
  next
    case (unlock w)
    then show ?thesis by (intro keep [of w Recv]) simp_all
  qed
qed

lemma fetched_snoc:
  "fetched client (rs @ [offset]) = fetched client rs + mset (page client (length rs) offset)"
  by (simp add: fetched_def nth_append)

text \<open>
  No record is lost and none is stored twice: the records in \<open>allData\<close> and the records
  the workers still hold are together the records the calls have returned.
\<close>

lemma reachable_data:
  assumes "reachable client n s"
  shows "mset (allData s) + mset (concat (map pending (pcs s))) = fetched client (requests s)"
  using assms
proof (induction rule: reachable.induct)
  case reach_init
  show ?case by (simp add: init_def fetched_def)
next
  case (reach_step s s')
  have upd: "mset (allData s') + mset (concat (map pending (pcs s'))) = fetched client (requests s')"
    if "w < length (pcs s)" and "pcs s' = (pcs s)[w := p]"
      and "mset (allData s') + mset (pending p) + fetched client (requests s) =
           mset (allData s) + mset (pending (pcs s ! w)) + fetched client (requests s')"
    for w p
  proof -
    from mset_concat_split [OF that(1), of pending]
    obtain R where R: "mset (concat (map pending (pcs s))) = R + mset (pending (pcs s ! w))"
      "\<And>p. mset (concat (map pending ((pcs s)[w := p]))) = R + mset (pending p)"
      by blast
    have "mset (allData s) + (R + mset (pending (pcs s ! w))) = fetched client (requests s)"
      using reach_step.IH R(1) by simp
    from mset_account [OF that(3) this] show ?thesis using R(2) that(2) by simp
  qed
  from reach_step.hyps(2) show ?case
  proof cases
    case send
    then show ?thesis using reach_step.IH by simp
  next
    case close
    then show ?thesis using reach_step.IH by simp
  next
    case (recv w offset rest)
    then show ?thesis by (intro upd [of w "Fetch offset"]) simp_all
  next
    case (recv_closed w)
    then show ?thesis by (intro upd [of w Done]) simp_all
  next
    case (fetch_error w offset err)
    then show ?thesis by (intro upd [of w Recv]) (simp_all add: fetched_snoc page_def)
  next
    case (fetch_empty w offset records)
    then show ?thesis by (intro upd [of w Recv]) (simp_all add: fetched_snoc page_def)
  next
    case (fetch_records w offset records)
    then show ?thesis by (intro upd [of w "Lock records"]) (simp_all add: fetched_snoc page_def)
  next
    case (lock w records)
    then show ?thesis by (intro upd [of w "AppendRead records"]) simp_all
  next
    case (append_read w records)
    then show ?thesis by (intro upd [of w "AppendWrite records (allData s @ records)"]) simp_all
  next
    case (append_write w records new)
    moreover from reachable_append [OF reach_step.hyps(1)] append_write
    have "new = allData s @ records" by simp
    ultimately show ?thesis by (intro upd [of w Unlock]) simp_all
  next
    case (unlock w)
    then show ?thesis by (intro upd [of w Recv]) simp_all
  qed
qed

section \<open>Every run ends, and ends with all workers returned\<close>

lemma step_decreases:
  assumes "step client s s'"
  shows "steps_left s' < steps_left s"
  using assms
proof cases
  case send
  then show ?thesis by (simp add: steps_left_def)
next
  case close
  then show ?thesis by (simp add: steps_left_def)
next
  case (recv w offset rest)
  then show ?thesis using sum_rank_update [of w "pcs s" "Fetch offset"] by (simp add: steps_left_def)
next
  case (recv_closed w)
  then show ?thesis using sum_rank_update [of w "pcs s" Done] by (simp add: steps_left_def)
next
  case (fetch_error w offset err)
  then show ?thesis using sum_rank_update [of w "pcs s" Recv] by (simp add: steps_left_def)
next
  case (fetch_empty w offset records)
  then show ?thesis using sum_rank_update [of w "pcs s" Recv] by (simp add: steps_left_def)
next
  case (fetch_records w offset records)
  then show ?thesis using sum_rank_update [of w "pcs s" "Lock records"] by (simp add: steps_left_def)
next
  case (lock w records)
  then show ?thesis using sum_rank_update [of w "pcs s" "AppendRead records"] by (simp add: steps_left_def)
next
  case (append_read w records)
  then show ?thesis
    using sum_rank_update [of w "pcs s" "AppendWrite records (allData s @ records)"]
    by (simp add: steps_left_def)
next
  case (append_write w records new)
  then show ?thesis using sum_rank_update [of w "pcs s" Unlock] by (simp add: steps_left_def)
next
  case (unlock w)
  then show ?thesis using sum_rank_update [of w "pcs s" Recv] by (simp add: steps_left_def)
qed

lemma reachable_holder:
  assumes "reachable client n s"
  shows "\<forall>v. mu s = Some v \<longrightarrow> v < length (pcs s)"
  using assms
proof (induction rule: reachable.induct)
  case reach_init
  show ?case by (simp add: init_def)
next
  case (reach_step s s')
  from reach_step.hyps(2) show ?case
    by cases (use reach_step.IH in simp_all)
qed

text \<open>A worker that is neither waiting for an offset nor returned can take a step.\<close>

lemma busy_worker_steps:
  assumes "reachable client n s" and "w < length (pcs s)"
    and "pcs s ! w \<noteq> Recv" and "pcs s ! w \<noteq> Done"
  shows "\<exists>s'. step client s s'"
proof (cases "pcs s ! w")
  case (Fetch offset)
  show ?thesis
  proof (cases "fetchBatch offset (client (length (requests s)))")
    case (Inl err)
    from step.fetch_error [where client = client, OF assms(2) Fetch Inl] show ?thesis by blast
  next
    case (Inr records)
    show ?thesis
    proof (cases "length records = 0")
      case True
      from step.fetch_empty [where client = client, OF assms(2) Fetch Inr True] show ?thesis by blast
    next
      case False
      from step.fetch_records [where client = client, OF assms(2) Fetch Inr False] show ?thesis by blast
    qed
  qed
next
  case (Lock records)
  show ?thesis
  proof (cases "mu s")
    case None
    from step.lock [where client = client, OF assms(2) Lock None] show ?thesis by blast
  next
    case (Some v)
    with reachable_holder [OF assms(1)] have v: "v < length (pcs s)" by simp
    with reachable_mutex [OF assms(1)] Some have cs: "in_cs (pcs s ! v)" by simp
    show ?thesis
    proof (cases "pcs s ! v")
      case (AppendRead r)
      from step.append_read [where client = client, OF v AppendRead] show ?thesis by blast
    next
      case (AppendWrite r new)
      from step.append_write [where client = client, OF v AppendWrite] show ?thesis by blast
    next
      case Unlock
      from step.unlock [where client = client, OF v Unlock] show ?thesis by blast
    qed (use cs in simp_all)
  qed
next
  case (AppendRead records)
  from step.append_read [where client = client, OF assms(2) AppendRead] show ?thesis by blast
next
  case (AppendWrite records new)
  from step.append_write [where client = client, OF assms(2) AppendWrite] show ?thesis by blast
next
  case Unlock
  from step.unlock [where client = client, OF assms(2) Unlock] show ?thesis by blast
qed (use assms in simp_all)

text \<open>No deadlock: with at least one worker a run that is not finished can take a step.\<close>

lemma progress:
  assumes "reachable client n s" and "0 < n" and "\<not> finished s"
  shows "\<exists>s'. step client s s'"
proof (cases "\<exists>w<length (pcs s). pcs s ! w \<noteq> Recv \<and> pcs s ! w \<noteq> Done")
  case True
  then show ?thesis using busy_worker_steps [OF assms(1)] by blast
next
  case False
  then have idle: "pcs s ! w = Recv \<or> pcs s ! w = Done" if "w < length (pcs s)" for w
    using that by blast
  note basic = reachable_basic [OF assms(1)]
  show ?thesis
  proof (cases "offsets s")
    case (Cons offset rest)
    with basic have none: "Done \<notin> set (pcs s)" by auto
    have 0: "0 < length (pcs s)" using basic assms(2) by simp
    have "pcs s ! 0 \<noteq> Done"
    proof
      assume "pcs s ! 0 = Done"
      with nth_mem [OF 0] have "Done \<in> set (pcs s)" by simp
      with none show False ..
    qed
    with idle [OF 0] have "pcs s ! 0 = Recv" by simp
    from step.recv [where client = client, OF 0 this Cons] show ?thesis by blast
  next
    case Nil
    show ?thesis
    proof (cases "next_i s < maxBatches")
      case True
      moreover have "length (offsets s) < length (pcs s)" using Nil basic assms(2) by simp
      ultimately show ?thesis using step.send [where client = client] by blast
    next
      case False
      with basic have full: "next_i s = maxBatches" by simp
      show ?thesis
      proof (cases "closed s")
        case False
        from step.close [where client = client, OF full False] show ?thesis by blast
      next
        case True
        with assms(3) obtain p where "p \<in> set (pcs s)" and "p \<noteq> Done"
          by (auto simp: finished_def list_all_iff)
        then obtain w where w: "w < length (pcs s)" and "pcs s ! w \<noteq> Done"
          by (auto simp: in_set_conv_nth)
        with idle [of w] have "pcs s ! w = Recv" by simp
        from step.recv_closed [where client = client, OF w this Nil True] show ?thesis by blast
      qed
    qed
  qed
qed

text \<open>Every run can be continued to a state in which \<open>wg.Wait()\<close> returns.\<close>

lemma eventually_finished:
  assumes "reachable client n s" and "0 < n"
  shows "\<exists>t. reachable client n t \<and> finished t"
  using assms(1)
proof (induction "steps_left s" arbitrary: s rule: less_induct)
  case less
  show ?case
  proof (cases "finished s")
    case True
    with less.prems show ?thesis by blast
  next
    case False
    from progress [OF less.prems assms(2) False] obtain s' where s': "step client s s'" by blast
    from step_decreases [OF s'] reachable.reach_step [OF less.prems s'] less.hyps
    show ?thesis by blast
  qed
qed

section \<open>The offsets a run requests\<close>

lemma distinct_offsets: "distinct (map (\<lambda>i. i * batchSize) [0..<k])"
  by (simp add: distinct_map inj_on_def batchSize_def)

lemma all_Done:
  assumes "list_all (\<lambda>p. p = Done) ps"
  shows "concat (map fetching ps) = []" and "concat (map pending ps) = []"
  using assms by (induction ps) simp_all

lemma finished_offsets:
  assumes "reachable client n s" and "finished s"
  shows "offsets s = []"
proof (cases "pcs s")
  case Nil
  with reachable_basic [OF assms(1)] show ?thesis by auto
next
  case (Cons p ps)
  with assms(2) have "Done \<in> set (pcs s)" by (simp add: finished_def)
  with reachable_basic [OF assms(1)] show ?thesis by simp
qed

lemma reachable_requests:
  assumes "reachable client n s"
  shows "mset (requests s) \<subseteq># mset (dispatched s)" and "distinct (requests s)"
proof -
  let ?rest = "offsets s @ concat (map fetching (pcs s))"
  have eq: "mset (requests s @ ?rest) = mset (dispatched s)"
    using reachable_offsets [OF assms] by (simp add: ac_simps)
  then show "mset (requests s) \<subseteq># mset (dispatched s)"
    by (metis mset_append mset_subset_eq_add_left)
  have "distinct (dispatched s)"
    using reachable_basic [OF assms] distinct_offsets by simp
  with mset_eq_imp_distinct_iff [OF eq] have "distinct (requests s @ ?rest)" by simp
  then show "distinct (requests s)" by simp
qed

lemma finished_requests:
  assumes "reachable client n s" and "finished s"
  shows "dispatched s = all_offsets" and "mset (requests s) = mset all_offsets"
proof -
  from assms(2) have "closed s" and alld: "list_all (\<lambda>p. p = Done) (pcs s)"
    by (simp_all add: finished_def)
  with reachable_basic [OF assms(1)] show d: "dispatched s = all_offsets"
    by (simp add: all_offsets_def)
  from reachable_offsets [OF assms(1)] finished_offsets [OF assms] all_Done(1) [OF alld] d
  show "mset (requests s) = mset all_offsets" by simp
qed

text \<open>
  C3.  In every state of a run, with any number of workers and whatever the service
  answers, the offsets \<open>main\<close> has sent are \<open>0\<close>, \<open>batchSize\<close>, \<open>2 * batchSize\<close>, and so
  on, in this order and at most \<open>maxBatches\<close> of them, and \<open>fetchBatch\<close> has been called
  on offsets that were sent only, on each at most once.  When \<open>wg.Wait()\<close> returns, all
  \<open>maxBatches\<close> offsets have been sent and \<open>fetchBatch\<close> has been called on every one of
  them exactly once: an empty page or an error ends nothing.  A run with a worker that has
  not come that far can take a step, and every step brings it closer to the end.
\<close>

theorem coordinator_offsets:
  assumes "reachable client n s"
  shows "dispatched s = map (\<lambda>i. i * batchSize) [0..<next_i s] \<and> next_i s \<le> maxBatches \<and>
    mset (requests s) \<subseteq># mset (dispatched s) \<and> distinct (requests s) \<and>
    (finished s \<longrightarrow>
       dispatched s = map (\<lambda>i. i * batchSize) [0..<maxBatches] \<and>
       mset (requests s) = mset (map (\<lambda>i. i * batchSize) [0..<maxBatches])) \<and>
    (0 < n \<and> \<not> finished s \<longrightarrow> (\<exists>s'. step client s s')) \<and>
    (\<forall>s'. step client s s' \<longrightarrow> steps_left s' < steps_left s)"
proof -
  have "finished s \<longrightarrow>
       dispatched s = map (\<lambda>i. i * batchSize) [0..<maxBatches] \<and>
       mset (requests s) = mset (map (\<lambda>i. i * batchSize) [0..<maxBatches])"
    using finished_requests [OF assms] by (simp add: all_offsets_def)
  moreover have "0 < n \<and> \<not> finished s \<longrightarrow> (\<exists>s'. step client s s')"
    using progress [OF assms] by blast
  moreover have "\<forall>s'. step client s s' \<longrightarrow> steps_left s' < steps_left s"
    using step_decreases by blast
  ultimately show ?thesis
    using reachable_basic [OF assms] reachable_requests [OF assms] by blast
qed

theorem coordinator_offsets_witness:
  "\<exists>s. reachable (\<lambda>k r. Inr \<lparr>StatusCode = 200, Body = Inr \<lparr>Features = []\<rparr>\<rparr>) workers s \<and>
       finished s \<and>
       dispatched s = map (\<lambda>i. i * batchSize) [0..<maxBatches] \<and>
       mset (requests s) = mset (map (\<lambda>i. i * batchSize) [0..<maxBatches]) \<and>
       length (requests s) = 300"
proof -
  let ?empty = "\<lambda>k r. Inr \<lparr>StatusCode = 200, Body = Inr \<lparr>Features = []\<rparr>\<rparr>"
  have "reachable ?empty workers (init workers)" by (rule reachable.reach_init)
  moreover have "0 < workers" by (simp add: workers_def)
  ultimately obtain t where t: "reachable ?empty workers t" "finished t"
    using eventually_finished by blast
  from coordinator_offsets [OF t(1)]
  have "finished t \<longrightarrow>
       dispatched t = map (\<lambda>i. i * batchSize) [0..<maxBatches] \<and>
       mset (requests t) = mset (map (\<lambda>i. i * batchSize) [0..<maxBatches])"
    by blast
  with t(2) have d: "dispatched t = map (\<lambda>i. i * batchSize) [0..<maxBatches]"
    and r: "mset (requests t) = mset (map (\<lambda>i. i * batchSize) [0..<maxBatches])"
    by blast+
  from r have "size (mset (requests t)) = size (mset (map (\<lambda>i. i * batchSize) [0..<maxBatches]))"
    by simp
  then have "length (requests t) = 300" by (simp add: maxBatches_def)
  with t d r show ?thesis by blast
qed

section \<open>The records a run accumulates\<close>

lemma fetched_fixed:
  "fetched (\<lambda>k. client) rs = (\<Sum>offset\<in>#mset rs. mset (fixed_page client offset))"
proof (induction rs rule: rev_induct)
  case Nil
  show ?case by (simp add: fetched_def)
next
  case (snoc offset rs)
  have "page (\<lambda>k. client) (length rs) offset = fixed_page client offset"
    by (simp add: page_def fixed_page_def)
  with snoc show ?case by (simp add: fetched_snoc)
qed

lemma sum_pages:
  "(\<Sum>offset\<in>#mset os. mset (f offset)) = mset (concat (map f os))"
  by (induction os) simp_all

lemma length_pages:
  assumes "\<forall>i<m. f (g i) = [] \<or> length (f (g i)) = b"
  shows "length (concat (map f (map g [0..<m]))) = card {i. i < m \<and> f (g i) \<noteq> []} * b"
  using assms
proof (induction m)
  case 0
  show ?case by simp
next
  case (Suc m)
  have split: "{i. i < Suc m \<and> f (g i) \<noteq> []} =
      (if f (g m) \<noteq> [] then insert m {i. i < m \<and> f (g i) \<noteq> []} else {i. i < m \<and> f (g i) \<noteq> []})"
    by (auto simp: less_Suc_eq)
  have fin: "finite {i. i < m \<and> f (g i) \<noteq> []}" by simp
  have notin: "m \<notin> {i. i < m \<and> f (g i) \<noteq> []}" by simp
  from Suc.prems have ih: "length (concat (map f (map g [0..<m]))) = card {i. i < m \<and> f (g i) \<noteq> []} * b"
    by (intro Suc.IH) simp
  from Suc.prems have last: "f (g m) = [] \<or> length (f (g m)) = b" by simp
  show ?case
  proof (cases "f (g m) = []")
    case True
    then show ?thesis using ih split by simp
  next
    case False
    with last have "length (f (g m)) = b" by simp
    then show ?thesis using ih split False card_insert_disjoint [OF fin notin] by simp
  qed
qed

text \<open>
  C7.  Take a service that answers each offset the same at every call, and any number of
  workers.  In every state of a run at most one worker is between lock and unlock, and the
  records in \<open>allData\<close> together with the records the workers hold and have not stored yet
  are the records of the pages requested so far, each as often as it was returned.  When
  \<open>wg.Wait()\<close> returns, \<open>allData\<close> holds the records of the pages of all offsets, none
  lost and none twice; if every page that is not empty has \<open>batchSize\<close> records, their
  number is the number of pages that are not empty times \<open>batchSize\<close>.
\<close>

theorem coordinator_no_loss:
  assumes "reachable (\<lambda>k. client) n s"
  shows "(\<forall>w<n. \<forall>v<n. in_cs (pcs s ! w) \<and> in_cs (pcs s ! v) \<longrightarrow> w = v) \<and>
    mset (allData s) + mset (concat (map pending (pcs s))) =
      (\<Sum>offset\<in>#mset (requests s). mset (fixed_page client offset)) \<and>
    (finished s \<longrightarrow>
       mset (allData s) = mset (concat (map (fixed_page client) all_offsets)) \<and>
       ((\<forall>i<maxBatches. fixed_page client (i * batchSize) = [] \<or>
             length (fixed_page client (i * batchSize)) = batchSize) \<longrightarrow>
        length (allData s) =
          card {i. i < maxBatches \<and> fixed_page client (i * batchSize) \<noteq> []} * batchSize))"
proof -
  note basic = reachable_basic [OF assms]
  have excl: "\<forall>w<n. \<forall>v<n. in_cs (pcs s ! w) \<and> in_cs (pcs s ! v) \<longrightarrow> w = v"
    using reachable_exclusive [OF assms] basic by blast
  have acc: "mset (allData s) + mset (concat (map pending (pcs s))) =
      (\<Sum>offset\<in>#mset (requests s). mset (fixed_page client offset))"
    using reachable_data [OF assms] by (simp add: fetched_fixed)
  have fin: "mset (allData s) = mset (concat (map (fixed_page client) all_offsets))" if "finished s"
  proof -
    from that have "list_all (\<lambda>p. p = Done) (pcs s)" by (simp add: finished_def)
    from all_Done(2) [OF this] have "mset (concat (map pending (pcs s))) = {#}" by (simp only: mset.simps)
    with acc have "mset (allData s) = (\<Sum>offset\<in>#mset (requests s). mset (fixed_page client offset))"
      by simp
    also have "\<dots> = (\<Sum>offset\<in>#mset all_offsets. mset (fixed_page client offset))"
      by (simp only: finished_requests(2) [OF assms that])
    finally show ?thesis by (simp only: sum_pages)
  qed
  have len: "length (allData s) =
      card {i. i < maxBatches \<and> fixed_page client (i * batchSize) \<noteq> []} * batchSize"
    if "finished s" and "\<forall>i<maxBatches. fixed_page client (i * batchSize) = [] \<or>
             length (fixed_page client (i * batchSize)) = batchSize"
  proof -
    have "length (allData s) = size (mset (allData s))" by simp
    also have "\<dots> = length (concat (map (fixed_page client) all_offsets))"
      by (simp only: fin [OF that(1)] size_mset)
    also have "\<dots> = card {i. i < maxBatches \<and> fixed_page client (i * batchSize) \<noteq> []} * batchSize"
      unfolding all_offsets_def using that(2) by (rule length_pages)
    finally show ?thesis .
  qed
  from excl acc fin len show ?thesis by blast
qed

theorem coordinator_no_loss_witness:
  "\<exists>s. reachable
         (\<lambda>k r. Inr \<lparr>StatusCode = 200,
                     Body = Inr \<lparr>Features = replicate 1000 \<lparr>Attributes = Map.empty\<rparr>\<rparr>\<rparr>)
         workers s \<and>
       finished s \<and> length (allData s) = 300000"
proof -
  let ?full = "\<lambda>r :: request. Inr \<lparr>StatusCode = 200,
      Body = Inr \<lparr>Features = replicate 1000 \<lparr>Attributes = Map.empty\<rparr>\<rparr>\<rparr> :: string + response"
  have pg: "fixed_page ?full offset = replicate 1000 Map.empty" for offset
    by (simp add: fixed_page_def page_def fetchBatch_cases)
  have "reachable (\<lambda>k. ?full) workers (init workers)" by (rule reachable.reach_init)
  moreover have "0 < workers" by (simp add: workers_def)
  ultimately obtain t where t: "reachable (\<lambda>k. ?full) workers t" "finished t"
    using eventually_finished by blast
  have sizes: "\<forall>i<maxBatches. fixed_page ?full (i * batchSize) = [] \<or>
      length (fixed_page ?full (i * batchSize)) = batchSize"
    by (simp add: pg batchSize_def)
  from coordinator_no_loss [OF t(1)] t(2) sizes
  have "length (allData t) =
      card {i. i < maxBatches \<and> fixed_page ?full (i * batchSize) \<noteq> []} * batchSize"
    by blast
  moreover have "{i. i < maxBatches \<and> fixed_page ?full (i * batchSize) \<noteq> []} = {..<maxBatches}"
    by (auto simp: pg)
  ultimately have "length (allData t) = 300000"
    by (simp add: maxBatches_def batchSize_def)
  with t show ?thesis by blast
qed

end
